theory Spec2Isabelle
  imports Complex_Main
begin

section \<open>IgePathFinder: values\<close>

text \<open>
  The embedding follows \<^verbatim>\<open>src/engine/core/IgePathFinder.js\<close>.

  A JavaScript number is modelled by a rational: the only numbers the path finder handles
  are integer coordinates, Manhattan distances (integers) and the two literals \<^verbatim>\<open>1\<close>
  and \<^verbatim>\<open>1.4\<close>, which are never added to anything; on these values the comparison
  \<^verbatim>\<open><\<close> of the source agrees with the order of the rationals. Coordinates are
  unbounded integers. A property that is \<^verbatim>\<open>undefined\<close> on an object is \<open>None\<close>.

  A key of the two membership tables (\<^verbatim>\<open>openListHash\<close>, \<^verbatim>\<open>closedListHash\<close>) is the
  \<^verbatim>\<open>hash\<close> property of an object: \<open>Some (x, y)\<close> is the key of the coordinate
  \<open>(x, y)\<close>, \<open>None\<close> the key that an object without the property gets
  (\<^verbatim>\<open>table[undefined]\<close>).
\<close>

type_synonym hkey = "(int \<times> int) option"

text \<open>
  An object handled by the search: the caller's start point and the nodes made by
  \<^verbatim>\<open>_getNeighbours\<close>. The \<^verbatim>\<open>link\<close> property is \<^verbatim>\<open>undefined\<close>, the number
  \<^verbatim>\<open>1\<close> (line 54) or a reference to the node that was being expanded (line 123). An object
  is not written to any more once another node refers to it, so the reference is held
  by value.
\<close>

datatype node =
  Node (node_x: int) (node_y: int) (node_score: "rat option") (node_h: "rat option")
       (node_hash: hkey) (node_link: link)
and link = NoLink | One | Ref node

text \<open>
  Modelled from the spec: the constructor \<^verbatim>\<open>IgePathNode(x, y, score)\<close>, whose class is
  not among the sources. It stores the coordinate and the score it is given; the node is
  keyed by its coordinate (spec, section 3: the frontier is "keyed by coordinate").
\<close>

definition IgePathNode :: "int \<Rightarrow> int \<Rightarrow> rat \<Rightarrow> node" where
  "IgePathNode x y score = Node x y (Some score) None (Some (x, y)) NoLink"

text \<open>A point as the spec has it: an object with \<^verbatim>\<open>x\<close> and \<^verbatim>\<open>y\<close> and nothing else.\<close>

definition point :: "int \<Rightarrow> int \<Rightarrow> node" where
  "point x y = Node x y None None None NoLink"

definition coord :: "node \<Rightarrow> int \<times> int" where
  "coord n = (node_x n, node_y n)"

text \<open>\<^verbatim>\<open>tileMap.map._mapData\<close>: rows indexed by \<open>y\<close>, cells by \<open>x\<close>. A cell holds
  \<open>Some t\<close> when the stored data is truthy; a missing row, a missing cell and a falsy cell
  all make the lookup of lines 44, 162, ... yield \<^verbatim>\<open>null\<close>, which is \<open>None\<close>.\<close>

type_synonym 't mapData = "int \<Rightarrow> (int \<Rightarrow> 't option) option"

definition tile_lookup :: "'t mapData \<Rightarrow> int \<Rightarrow> int \<Rightarrow> 't option" where
  "tile_lookup mapData newX newY =
     (case mapData newY of None \<Rightarrow> None | Some row \<Rightarrow> row newX)"

type_synonym 't callback = "'t option \<Rightarrow> int \<Rightarrow> int \<Rightarrow> bool"

datatype notification = pathFound "node list" | noPathFound | exceededLimit

datatype event = Log string | LogError string | Emit notification

text \<open>The local variables of \<^verbatim>\<open>aStar\<close> that outlive one loop iteration, the trace of
  \<^verbatim>\<open>this.log\<close> and \<^verbatim>\<open>this.emit\<close>, and the number of calls of the comparison callback.\<close>

record state =
  openList :: "node list"
  closedList :: "node list"
  openListHash :: "hkey set"
  closedListHash :: "hkey set"
  events :: "event list"
  calls :: nat

section \<open>The heuristic and the neighbours\<close>

definition heuristic :: "int \<Rightarrow> int \<Rightarrow> int \<Rightarrow> int \<Rightarrow> rat" where
  "heuristic x1 y1 x2 y2 = of_int (\<bar>x1 - x2\<bar> + \<bar>y1 - y2\<bar>)"

text \<open>The candidates of \<^verbatim>\<open>_getNeighbours\<close> in the order of lines 160 to 219, each with
  the score its node is constructed with.\<close>

definition candidates :: "node \<Rightarrow> bool \<Rightarrow> bool \<Rightarrow> (int \<times> int \<times> rat) list" where
  "candidates currentNode allowSquare allowDiagonal =
     (let x = node_x currentNode; y = node_y currentNode in
      (if allowSquare
       then [(x - 1, y, 1), (x + 1, y, 1), (x, y - 1, 1), (x, y + 1, 1)] else []) @
      (if allowDiagonal
       then [(x - 1, y - 1, 14 / 10), (x + 1, y - 1, 14 / 10),
             (x - 1, y + 1, 14 / 10), (x + 1, y + 1, 14 / 10)] else []))"

definition accepted :: "'t mapData \<Rightarrow> 't callback \<Rightarrow> int \<times> int \<times> rat \<Rightarrow> bool" where
  "accepted mapData comparisonCallback c =
     (case c of (newX, newY, w) \<Rightarrow>
        comparisonCallback (tile_lookup mapData newX newY) newX newY)"

definition getNeighbours ::
  "node \<Rightarrow> node \<Rightarrow> 't mapData \<Rightarrow> 't callback \<Rightarrow> bool \<Rightarrow> bool \<Rightarrow> node list" where
  "getNeighbours currentNode endPoint mapData comparisonCallback allowSquare allowDiagonal =
     map (\<lambda>(newX, newY, w). IgePathNode newX newY w)
       (filter (accepted mapData comparisonCallback)
          (candidates currentNode allowSquare allowDiagonal))"

section \<open>The search\<close>

text \<open>\<^verbatim>\<open>a < b\<close> on two properties: false as soon as one is \<^verbatim>\<open>undefined\<close>.\<close>

definition js_lt :: "rat option \<Rightarrow> rat option \<Rightarrow> bool" where
  "js_lt a b = (case a of None \<Rightarrow> False
                | Some u \<Rightarrow> (case b of None \<Rightarrow> False | Some v \<Rightarrow> u < v))"

text \<open>Lines 68 to 73: \<^verbatim>\<open>while (openCount--)\<close> visits the indices from the last one down
  to 0.\<close>

fun lowest_scan :: "node list \<Rightarrow> nat \<Rightarrow> nat \<Rightarrow> nat" where
  "lowest_scan nodes 0 lowInd = lowInd"
| "lowest_scan nodes (Suc openCount) lowInd =
     lowest_scan nodes openCount
       (if js_lt (node_h (nodes ! openCount)) (node_h (nodes ! lowInd))
        then openCount else lowInd)"

definition lowest_index :: "node list \<Rightarrow> nat" where
  "lowest_index nodes = lowest_scan nodes (length nodes) 0"

text \<open>Lines 80 to 86: follow \<^verbatim>\<open>link\<close> while it is truthy.\<close>

primrec build_path :: "node \<Rightarrow> node list" and link_path :: "link \<Rightarrow> node list" where
  "build_path (Node x y s hv k l) =
     (if l = NoLink then [] else Node x y s hv k l # link_path l)"
| "link_path NoLink = []"
| "link_path One = []"
| "link_path (Ref n) = build_path n"

text \<open>Lines 106 to 126, for one neighbour. The pushed object is the one that lines 123
  and 124 then write to, so the list holds the node with its link and \<^verbatim>\<open>h\<close> set. In the
  branch of line 117 the writes go to the fresh \<^verbatim>\<open>neighbourNode\<close>, which is in no list.\<close>

definition visit_neighbour :: "node \<Rightarrow> node \<Rightarrow> node \<Rightarrow> state \<Rightarrow> state" where
  "visit_neighbour currentNode endPoint neighbourNode s =
     (if node_hash neighbourNode \<in> closedListHash s then s
      else if node_hash neighbourNode \<notin> openListHash s then
        (let score = heuristic (node_x neighbourNode) (node_y neighbourNode)
                       (node_x endPoint) (node_y endPoint)
         in s\<lparr>openList := openList s @
                [Node (node_x neighbourNode) (node_y neighbourNode) (Some score) (Some score)
                   (node_hash neighbourNode) (Ref currentNode)]\<rparr>)
      else if js_lt (node_score currentNode) (node_score neighbourNode) then s
      else s)"

text \<open>Lines 92 to 127: the selected node leaves the open list and enters the closed list,
  then its neighbours are visited from the last one to the first.\<close>

definition expand ::
  "'t mapData \<Rightarrow> node \<Rightarrow> 't callback \<Rightarrow> bool \<Rightarrow> bool \<Rightarrow> nat \<Rightarrow> state \<Rightarrow> state" where
  "expand mapData endPoint comparisonCallback allowSquare allowDiagonal lowInd s =
     (let currentNode = openList s ! lowInd;
          s1 = s\<lparr>openList := take lowInd (openList s) @ drop (Suc lowInd) (openList s),
                 openListHash := openListHash s - {node_hash currentNode},
                 closedList := closedList s @ [currentNode],
                 closedListHash := insert (node_hash currentNode) (closedListHash s),
                 calls := calls s + length (candidates currentNode allowSquare allowDiagonal)\<rparr>;
          neighbourList = getNeighbours currentNode endPoint mapData comparisonCallback
                            allowSquare allowDiagonal
      in fold (visit_neighbour currentNode endPoint) (rev neighbourList) s1)"

text \<open>Lines 132 to 135.\<close>

definition no_path :: "state \<Rightarrow> node list \<times> state" where
  "no_path s =
     ([], s\<lparr>events := events s @
              [Log ''Could not find a path to destination!'', Emit noPathFound]\<rparr>)"

text \<open>One test of the loop condition and, when it holds, one run of the loop body (lines
  59 to 130): \<open>Inl\<close> is what \<^verbatim>\<open>aStar\<close> returns with the final state, \<open>Inr\<close> the state at the
  next test of the loop condition.\<close>

definition aStar_step ::
  "'t mapData \<Rightarrow> node \<Rightarrow> 't callback \<Rightarrow> bool \<Rightarrow> bool \<Rightarrow> state
     \<Rightarrow> (node list \<times> state) + state" where
  "aStar_step mapData endPoint comparisonCallback allowSquare allowDiagonal s =
     (if openList s = [] then Inl (no_path s)
      else if length (openList s) > 999 then
        Inl (no_path (s\<lparr>events := events s @
               [LogError ''Path finder error, open list nodes exceeded 1000!'',
                Emit exceededLimit]\<rparr>))
      else
        (let lowInd = lowest_index (openList s);
             currentNode = openList s ! lowInd
         in if node_x currentNode = node_x endPoint \<and> node_y currentNode = node_y endPoint
            then (let finalPath = build_path currentNode
                  in Inl (rev finalPath, s\<lparr>events := events s @ [Emit (pathFound finalPath)]\<rparr>))
            else Inr (expand mapData endPoint comparisonCallback allowSquare allowDiagonal
                        lowInd s)))"

text \<open>The loop, with a bound on the number of tests of its condition: \<open>None\<close> when the
  bound is reached before the loop has ended.\<close>

fun aStar_loop ::
  "nat \<Rightarrow> 't mapData \<Rightarrow> node \<Rightarrow> 't callback \<Rightarrow> bool \<Rightarrow> bool \<Rightarrow> state
     \<Rightarrow> (node list \<times> state) option" where
  "aStar_loop 0 mapData endPoint comparisonCallback allowSquare allowDiagonal s = None"
| "aStar_loop (Suc fuel) mapData endPoint comparisonCallback allowSquare allowDiagonal s =
     (case aStar_step mapData endPoint comparisonCallback allowSquare allowDiagonal s of
        Inl r \<Rightarrow> Some r
      | Inr s' \<Rightarrow>
          aStar_loop fuel mapData endPoint comparisonCallback allowSquare allowDiagonal s')"

text \<open>Lines 52 to 56: the caller's \<^verbatim>\<open>startPoint\<close> object itself is pushed, after its
  \<^verbatim>\<open>link\<close> is set to 1; the \<^verbatim>\<open>startNode\<close> of line 53 is not used.\<close>

definition start_state :: "node \<Rightarrow> state" where
  "start_state startPoint =
     \<lparr>openList = [Node (node_x startPoint) (node_y startPoint) (node_score startPoint)
                    (node_h startPoint) (node_hash startPoint) One],
      closedList = [], openListHash = {node_hash startPoint}, closedListHash = {},
      events = [], calls = 1\<rparr>"

text \<open>\<^verbatim>\<open>aStar\<close> (lines 19 to 137). A flag that is \<^verbatim>\<open>undefined\<close> is \<open>None\<close>.\<close>

definition aStar ::
  "nat \<Rightarrow> 't mapData \<Rightarrow> node \<Rightarrow> node \<Rightarrow> 't callback \<Rightarrow> bool option \<Rightarrow> bool option
     \<Rightarrow> (node list \<times> state) option" where
  "aStar fuel mapData startPoint endPoint comparisonCallback allowSquare allowDiagonal =
     (let allowSquare = (case allowSquare of None \<Rightarrow> True | Some b \<Rightarrow> b);
          allowDiagonal = (case allowDiagonal of None \<Rightarrow> False | Some b \<Rightarrow> b);
          endPointCheckTile = tile_lookup mapData (node_x endPoint) (node_y endPoint)
      in if \<not> comparisonCallback endPointCheckTile (node_x endPoint) (node_y endPoint)
         then Some ([], \<lparr>openList = [], closedList = [], openListHash = {},
                 closedListHash = {},
                 events = [Log ''Cannot path to destination because the destination tile is not pathable!''],
                 calls = 1\<rparr>)
         else aStar_loop fuel mapData endPoint comparisonCallback allowSquare allowDiagonal
                (start_state startPoint))"

section \<open>Observations used by the statements\<close>

text \<open>The node that line 116 leaves in the open list for a neighbour, once lines 123 and
  124 have run.\<close>

definition pushed_node :: "node \<Rightarrow> node \<Rightarrow> node \<Rightarrow> node" where
  "pushed_node currentNode endPoint neighbourNode =
     (let score = heuristic (node_x neighbourNode) (node_y neighbourNode)
                    (node_x endPoint) (node_y endPoint)
      in Node (node_x neighbourNode) (node_y neighbourNode) (Some score) (Some score)
           (node_hash neighbourNode) (Ref currentNode))"

text \<open>The state at the \<open>n\<close>-th test of the loop condition after the given one, when the
  loop runs that far.\<close>

fun aStar_after ::
  "nat \<Rightarrow> 't mapData \<Rightarrow> node \<Rightarrow> 't callback \<Rightarrow> bool \<Rightarrow> bool \<Rightarrow> state \<Rightarrow> state option" where
  "aStar_after 0 mapData endPoint comparisonCallback allowSquare allowDiagonal s = Some s"
| "aStar_after (Suc n) mapData endPoint comparisonCallback allowSquare allowDiagonal s =
     (case aStar_step mapData endPoint comparisonCallback allowSquare allowDiagonal s of
        Inl r \<Rightarrow> None
      | Inr s' \<Rightarrow>
          aStar_after n mapData endPoint comparisonCallback allowSquare allowDiagonal s')"

text \<open>The notifications of a trace, in order.\<close>

fun emitted :: "event list \<Rightarrow> notification list" where
  "emitted [] = []"
| "emitted (Emit n # es) = n # emitted es"
| "emitted (e # es) = emitted es"

text \<open>Test data: a rectangular map of \<open>w\<close> by \<open>hh\<close> tiles that all hold data, and the
  callback that accepts a tile exactly when it has data.\<close>

definition grid :: "int \<Rightarrow> int \<Rightarrow> unit mapData" where
  "grid w hh =
     (\<lambda>y. if 0 \<le> y \<and> y < hh
          then Some (\<lambda>x. if 0 \<le> x \<and> x < w then Some () else None) else None)"

definition has_tile :: "unit callback" where
  "has_tile t x y = (t \<noteq> None)"

text \<open>What the statements below show of a node: its coordinate, its score, its priority
  \<^verbatim>\<open>h\<close> and the coordinate of the node its link refers to.\<close>

definition prev_coord :: "node \<Rightarrow> (int \<times> int) option" where
  "prev_coord n = (case node_link n of Ref m \<Rightarrow> Some (coord m) | _ \<Rightarrow> None)"

definition view ::
  "node \<Rightarrow> (int \<times> int) \<times> rat option \<times> rat option \<times> (int \<times> int) option" where
  "view n = (coord n, node_score n, node_h n, prev_coord n)"

text \<open>More test data: a map that holds data exactly at the listed cells, and the map of
  a detour: from \<open>(1, 2)\<close> the end point \<open>(4, 2)\<close> is reached through \<open>(1, 1)\<close> only, and
  \<open>(2, 2)\<close> and \<open>(0, 3)\<close> are dead ends.\<close>

definition tiles :: "(int \<times> int) list \<Rightarrow> unit mapData" where
  "tiles cells = (\<lambda>y. Some (\<lambda>x. if (x, y) \<in> set cells then Some () else None))"

definition detour_map :: "unit mapData" where
  "detour_map = tiles [(1, 2), (2, 2), (1, 1), (0, 3), (2, 0), (3, 0), (4, 1), (4, 2)]"



text \<open>The states of the search along row 0 of the map \<open>grid 2000 2\<close> towards
  \<open>(1999, 0)\<close>: \<open>k + 2\<close> open nodes, the one at \<open>(k, 0)\<close> with the single lowest
  priority, and every closed key to its left.\<close>

definition spine :: "nat \<Rightarrow> state \<Rightarrow> bool" where
  "spine k s =
     (2 \<le> k \<and>
      (\<exists>pre post sc l.
         openList s = pre @ [Node (int k) 0 sc (Some (of_int (1999 - int k))) (Some (int k, 0)) l]
                        @ post \<and>
         (\<forall>n \<in> set pre \<union> set post. \<exists>v. node_h n = Some v \<and> of_int (1999 - int k) < v)) \<and>
      length (openList s) = k + 2 \<and>
      openListHash s = {} \<and>
      Some (int k - 1, 0) \<in> closedListHash s \<and>
      (\<forall>key \<in> closedListHash s. key = None \<or> (\<exists>x<int k. key = Some (x, 0))) \<and>
      events s = [])"

text \<open>Every node of the open list has a truthy link.\<close>

definition linked :: "state \<Rightarrow> bool" where
  "linked s = (\<forall>n \<in> set (openList s). node_link n \<noteq> NoLink)"

text \<open>The coordinates that the search can reach from the start point: the coordinate
  of the start itself, and every candidate of a reached coordinate that the callback
  accepts, on the map or off it.\<close>

inductive_set reachable ::
  "'t mapData \<Rightarrow> 't callback \<Rightarrow> bool \<Rightarrow> bool \<Rightarrow> node \<Rightarrow> (int \<times> int) set"
  for mapData :: "'t mapData" and comparisonCallback :: "'t callback"
    and allowSquare :: bool and allowDiagonal :: bool and startPoint :: node where
  start: "coord startPoint \<in> reachable mapData comparisonCallback allowSquare allowDiagonal startPoint"
| step: "(x, y) \<in> reachable mapData comparisonCallback allowSquare allowDiagonal startPoint \<Longrightarrow>
         c \<in> set (candidates (point x y) allowSquare allowDiagonal) \<Longrightarrow>
         accepted mapData comparisonCallback c \<Longrightarrow>
         (fst c, fst (snd c)) \<in> reachable mapData comparisonCallback allowSquare allowDiagonal startPoint"




section \<open>Selection of the node to expand\<close>

lemma js_lt_irrefl: "\<not> js_lt a a"
  by (simp add: js_lt_def split: option.splits)

lemma js_lt_trans: "js_lt a b \<Longrightarrow> js_lt b c \<Longrightarrow> js_lt a c"
  by (auto simp: js_lt_def split: option.splits)

lemma js_lt_asym: "js_lt a b \<Longrightarrow> \<not> js_lt b a"
  by (auto simp: js_lt_def split: option.splits)

lemma lowest_scan_inv:
  "let r = lowest_scan xs k low in
     (r = low \<or> (r < k \<and> js_lt (node_h (xs ! r)) (node_h (xs ! low)))) \<and>
     (\<forall>j<k. \<not> js_lt (node_h (xs ! j)) (node_h (xs ! r))) \<and>
     (r \<noteq> low \<longrightarrow> (\<forall>j. r < j \<and> j < k \<longrightarrow> node_h (xs ! j) \<noteq> node_h (xs ! r)))"
proof (induction k arbitrary: low)
  case 0
  show ?case by simp
next
  case (Suc k)
  define low' where "low' = (if js_lt (node_h (xs ! k)) (node_h (xs ! low)) then k else low)"
  define r where "r = lowest_scan xs k low'"
  have r: "lowest_scan xs (Suc k) low = r" by (simp add: r_def low'_def)
  from Suc.IH[of low'] have
    a: "r = low' \<or> (r < k \<and> js_lt (node_h (xs ! r)) (node_h (xs ! low')))" and
    b: "\<And>j. j < k \<Longrightarrow> \<not> js_lt (node_h (xs ! j)) (node_h (xs ! r))" and
    c: "\<And>j. r \<noteq> low' \<Longrightarrow> r < j \<Longrightarrow> j < k \<Longrightarrow> node_h (xs ! j) \<noteq> node_h (xs ! r)"
    unfolding r_def Let_def by blast+
  show ?case
  proof (cases "js_lt (node_h (xs ! k)) (node_h (xs ! low))")
    case True
    then have l: "low' = k" by (simp add: low'_def)
    have 1: "r = low \<or> (r < Suc k \<and> js_lt (node_h (xs ! r)) (node_h (xs ! low)))"
      using a True l js_lt_trans by (metis less_Suc_eq)
    have 2: "\<not> js_lt (node_h (xs ! j)) (node_h (xs ! r))" if "j < Suc k" for j
      using that a b l js_lt_irrefl js_lt_asym by (metis less_Suc_eq)
    have 3: "node_h (xs ! j) \<noteq> node_h (xs ! r)" if "r \<noteq> low" "r < j" "j < Suc k" for j
    proof (cases "j = k")
      case True
      with that a l show ?thesis using js_lt_irrefl by (metis nat_neq_iff)
    next
      case False
      with that have "j < k" by simp
      moreover from that l have "r \<noteq> low'" by simp
      ultimately show ?thesis using c that by blast
    qed
    show ?thesis unfolding r Let_def using 1 2 3 by blast
  next
    case False
    then have l: "low' = low" by (simp add: low'_def)
    have 1: "r = low \<or> (r < Suc k \<and> js_lt (node_h (xs ! r)) (node_h (xs ! low)))"
      using a l by auto
    have 2: "\<not> js_lt (node_h (xs ! j)) (node_h (xs ! r))" if "j < Suc k" for j
    proof (cases "j = k")
      case True
      show ?thesis using a False l True js_lt_trans by metis
    next
      case False
      with that b show ?thesis by simp
    qed
    have 3: "node_h (xs ! j) \<noteq> node_h (xs ! r)" if "r \<noteq> low" "r < j" "j < Suc k" for j
    proof (cases "j = k")
      case True
      from that a l have "js_lt (node_h (xs ! r)) (node_h (xs ! low))" by simp
      with False True show ?thesis by metis
    next
      case False
      with that have "j < k" by simp
      with c that l show ?thesis by simp
    qed
    show ?thesis unfolding r Let_def using 1 2 3 by blast
  qed
qed

lemma lowest_index_less: "xs \<noteq> [] \<Longrightarrow> lowest_index xs < length xs"
  using lowest_scan_inv[of xs "length xs" 0] unfolding lowest_index_def Let_def
  by (cases xs) auto

lemma lowest_index_least:
  "j < length xs \<Longrightarrow> \<not> js_lt (node_h (xs ! j)) (node_h (xs ! lowest_index xs))"
  using lowest_scan_inv[of xs "length xs" 0] unfolding lowest_index_def Let_def by blast

lemma lowest_index_tie:
  assumes "j < length xs" "node_h (xs ! j) = node_h (xs ! lowest_index xs)"
  shows "lowest_index xs = 0 \<or> 0 < j \<and> j \<le> lowest_index xs"
proof (cases "lowest_index xs = 0")
  case True
  then show ?thesis by simp
next
  case False
  define r where "r = lowest_index xs"
  from lowest_scan_inv[of xs "length xs" 0] False
  have lt: "js_lt (node_h (xs ! r)) (node_h (xs ! 0))"
    and tie: "\<And>j. r < j \<Longrightarrow> j < length xs \<Longrightarrow> node_h (xs ! j) \<noteq> node_h (xs ! r)"
    unfolding lowest_index_def Let_def r_def by blast+
  have "j \<noteq> 0" using lt assms js_lt_irrefl unfolding r_def by metis
  moreover have "\<not> r < j" using tie assms unfolding r_def by blast
  ultimately show ?thesis unfolding r_def by simp
qed

section \<open>The destination gate\<close>

text \<open>
  C6. When the callback rejects the tile at the end point, \<open>aStar\<close> returns the empty
  path at once, whatever the bound on the loop: no node has entered the open list or the
  closed list, nothing is emitted, and the callback has been called exactly once.
\<close>

theorem destination_gate:
  assumes "\<not> comparisonCallback (tile_lookup mapData (node_x endPoint) (node_y endPoint))
               (node_x endPoint) (node_y endPoint)"
  shows "aStar fuel mapData startPoint endPoint comparisonCallback allowSquare allowDiagonal =
           Some ([], \<lparr>openList = [], closedList = [], openListHash = {}, closedListHash = {},
             events = [Log ''Cannot path to destination because the destination tile is not pathable!''],
             calls = 1\<rparr>)"
  using assms by (simp add: aStar_def)

theorem destination_gate_witness:
  "\<not> has_tile (tile_lookup (grid 3 3) (node_x (point 3 4)) (node_y (point 3 4)))
       (node_x (point 3 4)) (node_y (point 3 4)) \<and>
   map_option fst (aStar 0 (grid 3 3) (point 0 0) (point 3 4) has_tile None None) = Some [] \<and>
   map_option (calls \<circ> snd) (aStar 0 (grid 3 3) (point 0 0) (point 3 4) has_tile None None)
     = Some 1"
proof -
  have h: "\<not> has_tile (tile_lookup (grid 3 3) (node_x (point 3 4)) (node_y (point 3 4)))
       (node_x (point 3 4)) (node_y (point 3 4))"
    by (simp add: has_tile_def tile_lookup_def grid_def point_def)
  show ?thesis
    using h destination_gate [where comparisonCallback = has_tile and mapData = "grid 3 3"
        and endPoint = "point 3 4" and fuel = 0 and startPoint = "point 0 0"
        and allowSquare = None and allowDiagonal = None]
    by simp
qed

section \<open>One loop iteration\<close>

lemma fold_visit:
  "fold (visit_neighbour c e) ns s =
     s\<lparr>openList := openList s @ map (pushed_node c e)
         (filter (\<lambda>n. node_hash n \<notin> closedListHash s \<and> node_hash n \<notin> openListHash s) ns)\<rparr>"
proof (induction ns arbitrary: s)
  case Nil
  show ?case by simp
next
  case (Cons n ns)
  show ?case
    by (simp add: Cons.IH) (simp add: visit_neighbour_def pushed_node_def Let_def)
qed

lemma expand_eq:
  "expand m e cb sq dg i s =
     \<lparr>openList = take i (openList s) @ drop (Suc i) (openList s) @
         map (pushed_node (openList s ! i) e)
           (filter (\<lambda>n. node_hash n \<notin> insert (node_hash (openList s ! i)) (closedListHash s) \<and>
                        node_hash n \<notin> openListHash s - {node_hash (openList s ! i)})
              (rev (getNeighbours (openList s ! i) e m cb sq dg))),
      closedList = closedList s @ [openList s ! i],
      openListHash = openListHash s - {node_hash (openList s ! i)},
      closedListHash = insert (node_hash (openList s ! i)) (closedListHash s),
      events = events s,
      calls = calls s + length (candidates (openList s ! i) sq dg)\<rparr>"
  by (simp add: expand_def Let_def fold_visit)

lemma aStar_step_Inr:
  "aStar_step m e cb sq dg s = Inr s' \<Longrightarrow>
     openList s \<noteq> [] \<and> length (openList s) \<le> 999 \<and>
     coord (openList s ! lowest_index (openList s)) \<noteq> coord e \<and>
     s' = expand m e cb sq dg (lowest_index (openList s)) s"
  by (auto simp: aStar_step_def Let_def coord_def split: if_splits)

lemma aStar_loop_unfold:
  "aStar_loop fuel m e cb sq dg s =
     (if fuel = 0 then None
      else (case aStar_step m e cb sq dg s of
              Inl r \<Rightarrow> Some r
            | Inr s' \<Rightarrow> aStar_loop (fuel - 1) m e cb sq dg s'))"
  by (cases fuel) (auto split: sum.splits)

lemma lowest_scan_unfold:
  "lowest_scan xs k low =
     (if k = 0 then low
      else lowest_scan xs (k - 1)
             (if js_lt (node_h (xs ! (k - 1))) (node_h (xs ! low)) then k - 1 else low))"
  by (cases k) simp_all

lemma js_lt_simps:
  "js_lt (Some a) (Some b) = (a < b)" "js_lt None x = False" "js_lt x None = False"
  "js_lt x x = False"
  by (auto simp: js_lt_def split: option.splits)

lemmas eval_defs = aStar_def start_state_def aStar_step_def expand_def lowest_index_def
  getNeighbours_def candidates_def accepted_def tile_lookup_def grid_def
  has_tile_def visit_neighbour_def heuristic_def IgePathNode_def point_def no_path_def
  Let_def coord_def view_def prev_coord_def js_lt_simps aStar_loop_unfold lowest_scan_unfold



section \<open>Selection of the node to expand, in the loop\<close>

text \<open>
  C5, as the code has it. At a test of the loop condition with a non-empty open list of at
  most 999 nodes, the loop body works on the node at index \<open>lowest_index (openList s)\<close>:
  it returns the path built from that node when the node is at the end point, and moves
  that node from the open list to the closed list otherwise. No node of the open list
  has a priority \<^verbatim>\<open>h\<close> below that node's (with \<^verbatim>\<open><\<close> as the source evaluates it;
  for defined priorities the chosen one is at most every other). Among the nodes that
  share the chosen priority, the node at index 0 is chosen when it is one of them, and
  the node at the highest index otherwise: the scan of lines 68 to 73 starts with index 0
  as its candidate and visits the indices from the last one down, replacing the candidate
  only by a strictly lower priority.
\<close>

theorem selection_lowest_priority:
  assumes "openList s \<noteq> []" "length (openList s) \<le> 999"
  shows "(let lowInd = lowest_index (openList s); currentNode = openList s ! lowInd in
     lowInd < length (openList s) \<and>
     (\<forall>j<length (openList s). \<not> js_lt (node_h (openList s ! j)) (node_h currentNode)) \<and>
     (\<forall>j<length (openList s). \<forall>u v. node_h currentNode = Some u \<and>
          node_h (openList s ! j) = Some v \<longrightarrow> u \<le> v) \<and>
     (\<forall>j<length (openList s). node_h (openList s ! j) = node_h currentNode \<longrightarrow>
          lowInd = 0 \<or> 0 < j \<and> j \<le> lowInd) \<and>
     aStar_step mapData endPoint comparisonCallback allowSquare allowDiagonal s =
       (if node_x currentNode = node_x endPoint \<and> node_y currentNode = node_y endPoint
        then Inl (rev (build_path currentNode),
                  s\<lparr>events := events s @ [Emit (pathFound (build_path currentNode))]\<rparr>)
        else Inr (expand mapData endPoint comparisonCallback allowSquare allowDiagonal lowInd s)) \<and>
     closedList (expand mapData endPoint comparisonCallback allowSquare allowDiagonal lowInd s) =
       closedList s @ [currentNode] \<and>
     take (length (openList s) - 1)
       (openList (expand mapData endPoint comparisonCallback allowSquare allowDiagonal lowInd s)) =
       take lowInd (openList s) @ drop (Suc lowInd) (openList s))"
proof -
  define xs where "xs = openList s"
  define i where "i = lowest_index xs"
  have ne: "xs \<noteq> []" using assms(1) by (simp add: xs_def)
  have 1: "i < length xs" unfolding i_def using ne by (rule lowest_index_less)
  have 2: "\<forall>j<length xs. \<not> js_lt (node_h (xs ! j)) (node_h (xs ! i))"
    unfolding i_def using lowest_index_least by blast
  have 3: "\<forall>j<length xs. \<forall>u v. node_h (xs ! i) = Some u \<and> node_h (xs ! j) = Some v \<longrightarrow> u \<le> v"
  proof (intro allI impI)
    fix j u v assume "j < length xs" "node_h (xs ! i) = Some u \<and> node_h (xs ! j) = Some v"
    then show "u \<le> v" using lowest_index_least[of j xs] by (simp add: js_lt_def i_def)
  qed
  have 4: "\<forall>j<length xs. node_h (xs ! j) = node_h (xs ! i) \<longrightarrow> i = 0 \<or> 0 < j \<and> j \<le> i"
    unfolding i_def using lowest_index_tie by blast
  have 5: "aStar_step mapData endPoint comparisonCallback allowSquare allowDiagonal s =
       (if node_x (xs ! i) = node_x endPoint \<and> node_y (xs ! i) = node_y endPoint
        then Inl (rev (build_path (xs ! i)),
                  s\<lparr>events := events s @ [Emit (pathFound (build_path (xs ! i)))]\<rparr>)
        else Inr (expand mapData endPoint comparisonCallback allowSquare allowDiagonal i s))"
    using assms by (simp add: aStar_step_def Let_def xs_def i_def)
  have 6: "closedList (expand mapData endPoint comparisonCallback allowSquare allowDiagonal i s) =
       closedList s @ [xs ! i]"
    by (simp add: expand_eq xs_def)
  define rest where "rest = take i xs @ drop (Suc i) xs"
  define new where "new = map (pushed_node (xs ! i) endPoint)
              (filter (\<lambda>n. node_hash n \<notin> insert (node_hash (xs ! i)) (closedListHash s) \<and>
                           node_hash n \<notin> openListHash s - {node_hash (xs ! i)})
                 (rev (getNeighbours (xs ! i) endPoint mapData comparisonCallback
                         allowSquare allowDiagonal)))"
  have len: "length rest = length xs - 1" using 1 by (simp add: rest_def)
  have op: "openList (expand mapData endPoint comparisonCallback allowSquare allowDiagonal i s) =
            rest @ new"
    by (simp add: expand_eq xs_def rest_def new_def)
  have "take (length rest) (rest @ new) = rest" by simp
  then have 7: "take (length xs - 1)
       (openList (expand mapData endPoint comparisonCallback allowSquare allowDiagonal i s)) =
       take i xs @ drop (Suc i) xs"
    unfolding op len by (simp only: rest_def)
  show ?thesis
    unfolding Let_def xs_def[symmetric] i_def[symmetric]
    using 1 2 3 4 5 6 7 by blast
qed

theorem selection_lowest_priority_witness:
  "openList \<lparr>openList = [Node 1 0 (Some 6) (Some 6) (Some (1, 0)) One,
       Node 0 2 (Some 5) (Some 5) (Some (0, 2)) One,
       Node 0 0 (Some 7) (Some 7) (Some (0, 0)) One,
       Node 1 1 (Some 5) (Some 5) (Some (1, 1)) One],
     closedList = [], openListHash = {}, closedListHash = {}, events = [], calls = 1\<rparr> \<noteq> [] \<and>
   lowest_index [Node 1 0 (Some 6) (Some 6) (Some (1, 0)) One,
       Node 0 2 (Some 5) (Some 5) (Some (0, 2)) One,
       Node 0 0 (Some 7) (Some 7) (Some (0, 0)) One,
       Node 1 1 (Some 5) (Some 5) (Some (1, 1)) One] = 3 \<and>
   closedList (expand (grid 5 6) (point 3 4) has_tile True False 3
     \<lparr>openList = [Node 1 0 (Some 6) (Some 6) (Some (1, 0)) One,
       Node 0 2 (Some 5) (Some 5) (Some (0, 2)) One,
       Node 0 0 (Some 7) (Some 7) (Some (0, 0)) One,
       Node 1 1 (Some 5) (Some 5) (Some (1, 1)) One],
     closedList = [], openListHash = {}, closedListHash = {}, events = [], calls = 1\<rparr>) =
     [Node 1 1 (Some 5) (Some 5) (Some (1, 1)) One]"
proof -
  define S where "S = \<lparr>openList = [Node 1 0 (Some 6) (Some 6) (Some (1, 0)) One,
       Node 0 2 (Some 5) (Some 5) (Some (0, 2)) One,
       Node 0 0 (Some 7) (Some 7) (Some (0, 0)) One,
       Node 1 1 (Some 5) (Some 5) (Some (1, 1)) One],
     closedList = [], openListHash = {}, closedListHash = {}, events = [], calls = 1\<rparr>"
  have a: "openList S \<noteq> []" by (simp add: S_def)
  have b: "length (openList S) \<le> 999" by (simp add: S_def)
  have c: "lowest_index (openList S) = 3"
    by (simp add: S_def lowest_index_def js_lt_simps lowest_scan_unfold)
  from selection_lowest_priority [OF a b, of "grid 5 6" "point 3 4" has_tile True False]
  have "closedList (expand (grid 5 6) (point 3 4) has_tile True False
                      (lowest_index (openList S)) S) =
          closedList S @ [openList S ! lowest_index (openList S)]"
    unfolding Let_def by (elim conjE)
  then have "closedList (expand (grid 5 6) (point 3 4) has_tile True False 3 S) =
          [Node 1 1 (Some 5) (Some 5) (Some (1, 1)) One]"
    unfolding c by (simp add: S_def)
  with a c show ?thesis unfolding S_def by simp
qed

text \<open>
  C5 as stated fails on the tie-break, whether "earliest position" is read as the lowest
  list index or as the first index the loop visits. In the search on the 5 by 6 open grid
  from the plain point \<open>(0, 0)\<close> to \<open>(3, 4)\<close>, the second iteration finds the priorities
  6, 6 and chooses index 0, although the loop visits index 1 first; the third iteration
  finds the priorities 6, 5, 7, 5 and chooses index 3, not the lower index 1.
\<close>

theorem selection_tie_counterexample:
  "map_option (\<lambda>s. (map node_h (openList s), lowest_index (openList s)))
     (aStar_after 1 (grid 5 6) (point 3 4) has_tile True False (start_state (point 0 0))) =
     Some ([Some 6, Some 6], 0) \<and>
   map_option (\<lambda>s. (map node_h (openList s), lowest_index (openList s)))
     (aStar_after 2 (grid 5 6) (point 3 4) has_tile True False (start_state (point 0 0))) =
     Some ([Some 6, Some 5, Some 7, Some 5], 3)"
  by code_simp

section \<open>Insertion of a neighbour\<close>




section \<open>The open grid from (0, 0) to (3, 4)\<close>





section \<open>Neighbours that are already in the open list\<close>

text \<open>
  C3, evaluated. On the 5 by 6 open grid from the plain point \<open>(0, 0)\<close> to \<open>(3, 4)\<close>, the
  third iteration expands \<open>(1, 1)\<close>, whose score 5 is below the score 6 stored for its
  neighbour \<open>(1, 0)\<close>, which is in the open list with the start as predecessor. After the
  iteration the stored node is as it was and a second node at \<open>(1, 0)\<close>, linked to
  \<open>(1, 1)\<close>, has been appended: line 116 never enters a pushed neighbour into
  \<^verbatim>\<open>openListHash\<close>, which is empty from the first expansion on, so the branch of line
  117 is not taken.
\<close>

theorem stored_neighbour_not_updated:
  "map_option (map view \<circ> openList)
     (aStar_after 2 (grid 5 6) (point 3 4) has_tile True False (start_state (point 0 0))) =
     Some [((1, 0), Some 6, Some 6, Some (0, 0)), ((0, 2), Some 5, Some 5, Some (0, 1)),
           ((0, 0), Some 7, Some 7, Some (0, 1)), ((1, 1), Some 5, Some 5, Some (0, 1))] \<and>
   map_option (map view \<circ> openList)
     (aStar_after 3 (grid 5 6) (point 3 4) has_tile True False (start_state (point 0 0))) =
     Some [((1, 0), Some 6, Some 6, Some (0, 0)), ((0, 2), Some 5, Some 5, Some (0, 1)),
           ((0, 0), Some 7, Some 7, Some (0, 1)), ((1, 2), Some 4, Some 4, Some (1, 1)),
           ((1, 0), Some 6, Some 6, Some (1, 1)), ((2, 1), Some 4, Some 4, Some (1, 1))] \<and>
   map_option (map view \<circ> closedList)
     (aStar_after 3 (grid 5 6) (point 3 4) has_tile True False (start_state (point 0 0))) =
     Some [((0, 0), None, None, None), ((0, 1), Some 6, Some 6, Some (0, 0)),
           ((1, 1), Some 5, Some 5, Some (0, 1))] \<and>
   map_option openListHash
     (aStar_after 2 (grid 5 6) (point 3 4) has_tile True False (start_state (point 0 0))) =
     Some {}"
  by code_simp


text \<open>
  C4, evaluated. On the 5 by 6 open grid towards \<open>(3, 4)\<close>, from a start node at \<open>(0, 0)\<close>
  that is keyed by its coordinate, the open list holds two nodes at \<open>(1, 0)\<close> after
  three iterations. When the start object is a plain point, without a key, its coordinate
  \<open>(0, 0)\<close> is moreover back in the open list after two iterations although the start
  has been moved to the closed list.
\<close>

theorem open_list_duplicates:
  "map_option (\<lambda>s. (map coord (openList s), map coord (closedList s)))
     (aStar_after 3 (grid 5 6) (point 3 4) has_tile True False
        (start_state (IgePathNode 0 0 0))) =
     Some ([(1, 0), (0, 2), (1, 2), (1, 0), (2, 1)], [(0, 0), (0, 1), (1, 1)]) \<and>
   map_option (\<lambda>s. (map coord (openList s), map coord (closedList s)))
     (aStar_after 2 (grid 5 6) (point 3 4) has_tile True False
        (start_state (point 0 0))) =
     Some ([(1, 0), (0, 2), (0, 0), (1, 1)], [(0, 0), (0, 1)])"
  by code_simp

section \<open>Notifications\<close>

lemma emitted_append: "emitted (xs @ ys) = emitted xs @ emitted ys"
  by (induction xs rule: emitted.induct) simp_all

lemma build_path_nonempty: "node_link n \<noteq> NoLink \<Longrightarrow> build_path n \<noteq> []"
  by (cases n) simp

lemma expand_events: "events (expand m e cb sq dg i s) = events s"
  by (simp add: expand_eq)

lemma set_without: "set (take i xs @ drop (Suc i) xs) \<subseteq> set xs"
  using set_take_subset[of i xs] set_drop_subset[of "Suc i" xs] by auto

lemma expand_linked:
  assumes "linked s"
  shows "linked (expand m e cb sq dg i s)"
  using assms set_without[of i "openList s"]
  unfolding linked_def expand_eq by (auto simp: pushed_node_def Let_def)

lemma aStar_step_Inl:
  assumes "aStar_step m e cb sq dg s = Inl (p, s')" "linked s"
  shows "emitted (events s') = emitted (events s) @ [pathFound (rev p)] \<and> p \<noteq> [] \<or>
         emitted (events s') = emitted (events s) @ [noPathFound] \<and> p = [] \<and> openList s' = [] \<or>
         emitted (events s') = emitted (events s) @ [exceededLimit, noPathFound] \<and> p = [] \<and>
           999 < length (openList s')"
proof (cases "openList s = []")
  case True
  with assms(1) show ?thesis by (auto simp: aStar_step_def no_path_def emitted_append)
next
  case False
  show ?thesis
  proof (cases "999 < length (openList s)")
    case True
    with False assms(1) show ?thesis by (auto simp: aStar_step_def no_path_def emitted_append)
  next
    case False
    define c where "c = openList s ! lowest_index (openList s)"
    have "c \<in> set (openList s)"
      unfolding c_def using \<open>openList s \<noteq> []\<close> lowest_index_less by simp
    with assms(2) have "build_path c \<noteq> []"
      by (simp add: linked_def build_path_nonempty)
    with False \<open>openList s \<noteq> []\<close> assms(1) show ?thesis
      by (auto simp: aStar_step_def Let_def c_def emitted_append split: if_splits)
  qed
qed

lemma aStar_loop_outcome:
  assumes "aStar_loop fuel m e cb sq dg s = Some (p, s')" "linked s"
  shows "emitted (events s') = emitted (events s) @ [pathFound (rev p)] \<and> p \<noteq> [] \<or>
         emitted (events s') = emitted (events s) @ [noPathFound] \<and> p = [] \<and> openList s' = [] \<or>
         emitted (events s') = emitted (events s) @ [exceededLimit, noPathFound] \<and> p = [] \<and>
           999 < length (openList s')"
  using assms
proof (induction fuel arbitrary: s)
  case 0
  then show ?case by simp
next
  case (Suc fuel)
  show ?case
  proof (cases "aStar_step m e cb sq dg s")
    case (Inl r)
    with Suc.prems(1) have "aStar_step m e cb sq dg s = Inl (p, s')" by simp
    from aStar_step_Inl[OF this Suc.prems(2)] show ?thesis .
  next
    case (Inr s1)
    with Suc.prems(1) have l: "aStar_loop fuel m e cb sq dg s1 = Some (p, s')" by simp
    from aStar_step_Inr[OF Inr] have s1: "s1 = expand m e cb sq dg (lowest_index (openList s)) s"
      by simp
    have "linked s1" unfolding s1 using Suc.prems(2) by (rule expand_linked)
    from Suc.IH[OF l this] show ?thesis by (simp add: s1 expand_events)
  qed
qed

text \<open>
  C2, as the code has it. A call that returns has emitted: nothing, when the callback
  rejects the tile at the end point (line 49 returns after the log message); exactly
  \<^verbatim>\<open>pathFound\<close>, with the path from the goal back to the start, when a path is returned;
  exactly \<^verbatim>\<open>noPathFound\<close> when the open list has run empty; and \<^verbatim>\<open>exceededLimit\<close>
  followed by \<^verbatim>\<open>noPathFound\<close> when the open list holds more than 999 nodes (the
  \<^verbatim>\<open>break\<close> of line 64 leads to lines 133 to 135). In the last three cases the returned
  path is empty exactly when no \<^verbatim>\<open>pathFound\<close> was emitted.
\<close>

theorem notifications_per_call:
  assumes "aStar fuel mapData startPoint endPoint comparisonCallback allowSquare allowDiagonal
             = Some (p, s)"
  shows "if comparisonCallback (tile_lookup mapData (node_x endPoint) (node_y endPoint))
              (node_x endPoint) (node_y endPoint)
         then emitted (events s) = [pathFound (rev p)] \<and> p \<noteq> [] \<or>
              emitted (events s) = [noPathFound] \<and> p = [] \<and> openList s = [] \<or>
              emitted (events s) = [exceededLimit, noPathFound] \<and> p = [] \<and>
                999 < length (openList s)
         else emitted (events s) = [] \<and> p = []"
proof (cases "comparisonCallback (tile_lookup mapData (node_x endPoint) (node_y endPoint))
              (node_x endPoint) (node_y endPoint)")
  case True
  have "linked (start_state startPoint)" by (simp add: linked_def start_state_def)
  moreover from True assms obtain sq dg where
    "aStar_loop fuel mapData endPoint comparisonCallback sq dg (start_state startPoint) = Some (p, s)"
    by (auto simp: aStar_def Let_def)
  ultimately have
    "emitted (events s) = emitted (events (start_state startPoint)) @ [pathFound (rev p)] \<and> p \<noteq> [] \<or>
     emitted (events s) = emitted (events (start_state startPoint)) @ [noPathFound] \<and> p = [] \<and>
       openList s = [] \<or>
     emitted (events s) = emitted (events (start_state startPoint)) @ [exceededLimit, noPathFound] \<and>
       p = [] \<and> 999 < length (openList s)"
    using aStar_loop_outcome by blast
  with True show ?thesis by (simp add: start_state_def)
next
  case False
  with assms show ?thesis by (auto simp: aStar_def Let_def)
qed

theorem notifications_per_call_witness:
  "aStar 2 (grid 3 3) (point 0 0) (point 5 5) (\<lambda>t x y. x = 5 \<and> y = 5) None None =
     Some ([], \<lparr>openList = [], closedList = [Node 0 0 None None None One], openListHash = {},
        closedListHash = {None},
        events = [Log ''Could not find a path to destination!'', Emit noPathFound],
        calls = 5\<rparr>) \<and>
   emitted [Log ''Could not find a path to destination!'', Emit noPathFound] = [noPathFound]"
proof -
  have h: "aStar 2 (grid 3 3) (point 0 0) (point 5 5) (\<lambda>t x y. x = 5 \<and> y = 5) None None =
     Some ([], \<lparr>openList = [], closedList = [Node 0 0 None None None One], openListHash = {},
        closedListHash = {None},
        events = [Log ''Could not find a path to destination!'', Emit noPathFound],
        calls = 5\<rparr>)"
    by (simp add: eval_defs)
  show ?thesis using h notifications_per_call [OF h] by simp
qed

text \<open>
  C2 as stated fails: when the callback rejects the end tile the call emits no
  notification at all.
\<close>

theorem no_notification_counterexample:
  "map_option (\<lambda>r. (fst r, events (snd r)))
     (aStar 20 (grid 3 3) (point 0 0) (point 3 4) has_tile None None) =
     Some ([], [Log ''Cannot path to destination because the destination tile is not pathable!''])"
  by (simp add: eval_defs)

section \<open>The cutoff\<close>

lemma step_at_1000_entries:
  assumes "length (openList s) = 1000"
  shows "aStar_step mapData endPoint comparisonCallback allowSquare allowDiagonal s =
           Inl ([], s\<lparr>events := events s @
                  [LogError ''Path finder error, open list nodes exceeded 1000!'',
                   Emit exceededLimit,
                   Log ''Could not find a path to destination!'', Emit noPathFound]\<rparr>)"
  using assms by (auto simp: aStar_step_def no_path_def)

lemma lowest_index_strict_min:
  assumes "\<forall>n \<in> set pre \<union> set post. js_lt (node_h c) (node_h n)"
  shows "lowest_index (pre @ [c] @ post) = length pre"
proof (rule ccontr)
  let ?xs = "pre @ [c] @ post"
  assume ne: "lowest_index ?xs \<noteq> length pre"
  have lt: "lowest_index ?xs < length ?xs" by (rule lowest_index_less) simp
  have "?xs ! lowest_index ?xs \<in> set pre \<union> set post"
  proof (cases "lowest_index ?xs < length pre")
    case True
    then show ?thesis by (simp add: nth_append)
  next
    case False
    with ne have gt: "length pre < lowest_index ?xs" by simp
    then obtain d where d: "lowest_index ?xs = Suc (length pre + d)"
      using less_imp_Suc_add by blast
    with lt have "d < length post" by simp
    then show ?thesis unfolding d by (simp add: nth_append)
  qed
  with assms have "js_lt (node_h c) (node_h (?xs ! lowest_index ?xs))" by blast
  moreover have "\<not> js_lt (node_h (?xs ! length pre)) (node_h (?xs ! lowest_index ?xs))"
    by (rule lowest_index_least) simp
  ultimately show False by simp
qed

lemma spine_neighbours:
  assumes "2 \<le> k" "k \<le> 997" "node_x c = int k" "node_y c = 0"
  shows "getNeighbours c e (grid 2000 2) has_tile True False =
           [IgePathNode (int k - 1) 0 1, IgePathNode (int k + 1) 0 1, IgePathNode (int k) 1 1]"
  using assms
  by (simp add: getNeighbours_def candidates_def accepted_def has_tile_def tile_lookup_def
      grid_def Let_def)

lemma spine_open:
  assumes "spine k s"
  shows "\<exists>pre c post.
    openList s = pre @ [c] @ post \<and>
    node_x c = int k \<and> node_y c = 0 \<and> node_h c = Some (of_int (1999 - int k)) \<and>
    node_hash c = Some (int k, 0) \<and>
    (\<forall>n \<in> set pre \<union> set post. \<exists>v. node_h n = Some v \<and> of_int (1999 - int k) < v)"
proof -
  from assms have
    "\<exists>pre post sc l.
         openList s = pre @ [Node (int k) 0 sc (Some (of_int (1999 - int k))) (Some (int k, 0)) l]
                        @ post \<and>
         (\<forall>n \<in> set pre \<union> set post. \<exists>v. node_h n = Some v \<and> of_int (1999 - int k) < v)"
    by (simp add: spine_def)
  then obtain pre post sc l where
    1: "openList s = pre @ [Node (int k) 0 sc (Some (of_int (1999 - int k))) (Some (int k, 0)) l]
                        @ post" and
    2: "\<forall>n \<in> set pre \<union> set post. \<exists>v. node_h n = Some v \<and> of_int (1999 - int k) < v"
    by (elim exE conjE)
  show ?thesis
    apply (rule exI[of _ pre])
    apply (rule exI[of _ "Node (int k) 0 sc (Some (of_int (1999 - int k))) (Some (int k, 0)) l"])
    apply (rule exI[of _ post])
    using 1 2 apply simp
    done
qed

lemma spine_step:
  assumes "spine k s" "k \<le> 997"
  shows "\<exists>s'. aStar_step (grid 2000 2) (point 1999 0) has_tile True False s = Inr s' \<and>
              spine (Suc k) s'"
proof -
  from assms(1) have k2: "2 \<le> k" and len: "length (openList s) = k + 2"
    and oh: "openListHash s = {}"
    and prev: "Some (int k - 1, 0) \<in> closedListHash s"
    and clall: "\<forall>key \<in> closedListHash s. key = None \<or> (\<exists>x<int k. key = Some (x, 0))"
    and ev: "events s = []"
    by (simp_all add: spine_def)
  from spine_open[OF assms(1)] obtain pre c post where
    op': "openList s = pre @ [c] @ post"
    and c: "node_x c = int k" "node_y c = 0" "node_h c = Some (of_int (1999 - int k))"
       "node_hash c = Some (int k, 0)"
    and others: "\<And>n. n \<in> set pre \<union> set post \<Longrightarrow>
                   \<exists>v. node_h n = Some v \<and> of_int (1999 - int k) < v"
    by (elim exE conjE) blast
  have "js_lt (node_h c) (node_h n)" if "n \<in> set pre \<union> set post" for n
    using others[OF that] c(3) by (auto simp: js_lt_def)
  then have "\<forall>n \<in> set pre \<union> set post. js_lt (node_h c) (node_h n)" by blast
  then have low: "lowest_index (openList s) = length pre"
    unfolding op' by (rule lowest_index_strict_min)
  have cur: "openList s ! length pre = c" by (simp add: op')
  have notgoal: "\<not> (node_x c = node_x (point 1999 0) \<and> node_y c = node_y (point 1999 0))"
    using c assms(2) by (simp add: point_def)
  have ne: "openList s \<noteq> []" by (simp add: op')
  have small: "\<not> 999 < length (openList s)" using len assms(2) by simp
  have step: "aStar_step (grid 2000 2) (point 1999 0) has_tile True False s =
                Inr (expand (grid 2000 2) (point 1999 0) has_tile True False (length pre) s)"
    unfolding aStar_step_def Let_def low cur using ne small notgoal by simp
  define s' where "s' = expand (grid 2000 2) (point 1999 0) has_tile True False (length pre) s"
  have n1: "Some (int k + 1, 0) \<notin> closedListHash s"
  proof
    assume "Some (int k + 1, 0) \<in> closedListHash s"
    with clall have "\<exists>x<int k. Some (int k + 1, 0::int) = Some (x, 0)" by blast
    then show False by simp
  qed
  have n2: "Some (int k, 1) \<notin> closedListHash s"
  proof
    assume "Some (int k, 1) \<in> closedListHash s"
    with clall have "\<exists>x<int k. Some (int k, 1::int) = Some (x, 0)" by blast
    then show False by simp
  qed
  have nb: "getNeighbours c (point 1999 0) (grid 2000 2) has_tile True False =
           [IgePathNode (int k - 1) 0 1, IgePathNode (int k + 1) 0 1, IgePathNode (int k) 1 1]"
    by (rule spine_neighbours[OF k2 assms(2) c(1,2)])
  define tooth where "tooth = Node (int k) 1 (Some (of_int (2000 - int k)))
                  (Some (of_int (2000 - int k))) (Some (int k, 1)) (Ref c)"
  define head where "head = Node (int (Suc k)) 0 (Some (of_int (1999 - int (Suc k))))
                  (Some (of_int (1999 - int (Suc k)))) (Some (int (Suc k), 0)) (Ref c)"
  have p1: "pushed_node c (point 1999 0) (IgePathNode (int k) 1 1) = tooth"
    using assms(2) by (simp add: tooth_def pushed_node_def IgePathNode_def heuristic_def point_def Let_def)
  have p2: "pushed_node c (point 1999 0) (IgePathNode (int k + 1) 0 1) = head"
    using assms(2) by (simp add: head_def pushed_node_def IgePathNode_def heuristic_def point_def Let_def)
  have hashes: "node_hash (IgePathNode (int k) 1 1) = Some (int k, 1)"
    "node_hash (IgePathNode (int k + 1) 0 1) = Some (int k + 1, 0)"
    "node_hash (IgePathNode (int k - 1) 0 1) = Some (int k - 1, 0)"
    by (simp_all add: IgePathNode_def)
  have ops: "openList s' = (pre @ post @ [tooth]) @ [head] @ []"
    unfolding s'_def expand_eq cur nb
    using n1 n2 prev oh
    by (simp add: op' hashes c(4) p1 p2)
  have cls: "closedListHash s' = insert (Some (int k, 0)) (closedListHash s)"
    unfolding s'_def expand_eq cur by (simp add: c(4))
  have cl': "key = None \<or> (\<exists>x<int (Suc k). key = Some (x, 0))" if "key \<in> closedListHash s'" for key
  proof (cases "key = Some (int k, 0)")
    case True
    then show ?thesis by simp
  next
    case False
    with that have "key \<in> closedListHash s" by (simp add: cls)
    with clall have "key = None \<or> (\<exists>x<int k. key = Some (x, 0))" by blast
    then show ?thesis
    proof
      assume "key = None" then show ?thesis by simp
    next
      assume "\<exists>x<int k. key = Some (x, 0)"
      then obtain x where "x < int k" "key = Some (x, 0)" by blast
      then have "x < int (Suc k) \<and> key = Some (x, 0)" by simp
      then show ?thesis by blast
    qed
  qed
  have oth': "\<exists>v. node_h n = Some v \<and> of_int (1999 - int (Suc k)) < v"
    if "n \<in> set (pre @ post @ [tooth]) \<union> set []" for n
  proof (cases "n \<in> set pre \<union> set post")
    case True
    from others[OF this] obtain v where v: "node_h n = Some v" "of_int (1999 - int k) < v" by blast
    have "(of_int (1999 - int (Suc k)) :: rat) < of_int (1999 - int k)" by simp
    from this v(2) have "of_int (1999 - int (Suc k)) < v" by (rule less_trans)
    with v(1) show ?thesis by blast
  next
    case False
    with that have "n = tooth" by auto
    then show ?thesis by (simp add: tooth_def)
  qed
  have ex: "\<exists>pre post sc l.
       openList s' = pre @ [Node (int (Suc k)) 0 sc (Some (of_int (1999 - int (Suc k))))
                              (Some (int (Suc k), 0)) l] @ post \<and>
       (\<forall>n\<in>set pre \<union> set post. \<exists>v. node_h n = Some v \<and> of_int (1999 - int (Suc k)) < v)"
    apply (rule exI[of _ "pre @ post @ [tooth]"])
    apply (rule exI[of _ "[]"])
    apply (rule exI[of _ "Some (of_int (1999 - int (Suc k)))"])
    apply (rule exI[of _ "Ref c"])
    using ops oth' unfolding head_def by blast
  have "spine (Suc k) s'"
    unfolding spine_def
  proof (intro conjI)
    show "2 \<le> Suc k" using k2 by simp
    show "\<exists>pre post sc l.
       openList s' = pre @ [Node (int (Suc k)) 0 sc (Some (of_int (1999 - int (Suc k))))
                              (Some (int (Suc k), 0)) l] @ post \<and>
       (\<forall>n\<in>set pre \<union> set post. \<exists>v. node_h n = Some v \<and> of_int (1999 - int (Suc k)) < v)"
      by (rule ex)
    show "length (openList s') = Suc k + 2"
      using len unfolding ops op' by simp
    show "openListHash s' = {}" unfolding s'_def expand_eq using oh by simp
    show "Some (int (Suc k) - 1, 0) \<in> closedListHash s'" by (simp add: cls)
    show "\<forall>key\<in>closedListHash s'. key = None \<or> (\<exists>x<int (Suc k). key = Some (x, 0))"
      using cl' by blast
    show "events s' = []" unfolding s'_def expand_eq using ev by simp
  qed
  with step show ?thesis unfolding s'_def by blast
qed

lemma spine_run:
  "spine k s \<Longrightarrow> k + n \<le> 998 \<Longrightarrow>
     \<exists>s'. aStar_after n (grid 2000 2) (point 1999 0) has_tile True False s = Some s' \<and>
          spine (k + n) s'"
proof (induction n arbitrary: k s)
  case 0
  then show ?case by simp
next
  case (Suc n)
  from Suc.prems have "k \<le> 997" by simp
  from spine_step[OF Suc.prems(1) this] obtain s1 where
    s1: "aStar_step (grid 2000 2) (point 1999 0) has_tile True False s = Inr s1" "spine (Suc k) s1"
    by blast
  from Suc.prems have "Suc k + n \<le> 998" by simp
  from Suc.IH[OF s1(2) this] s1(1) show ?case by simp
qed

lemma aStar_after_add:
  "aStar_after (a + b) m e cb sq dg s =
     (case aStar_after a m e cb sq dg s of None \<Rightarrow> None
      | Some s' \<Rightarrow> aStar_after b m e cb sq dg s')"
proof (induction a arbitrary: s)
  case 0
  show ?case by simp
next
  case (Suc a)
  then show ?case by (cases "aStar_step m e cb sq dg s") simp_all
qed

lemma aStar_loop_after:
  "aStar_after a m e cb sq dg s = Some s' \<Longrightarrow>
     aStar_loop (a + b) m e cb sq dg s = aStar_loop b m e cb sq dg s'"
proof (induction a arbitrary: s)
  case 0
  then show ?case by simp
next
  case (Suc a)
  then show ?case by (cases "aStar_step m e cb sq dg s") simp_all
qed

lemma spine_start:
  "\<exists>s2. aStar_after 2 (grid 2000 2) (point 1999 0) has_tile True False (start_state (point 0 0))
           = Some s2 \<and> spine 2 s2"
proof -
  have e: "aStar_after 2 (grid 2000 2) (point 1999 0) has_tile True False (start_state (point 0 0))
     = Some \<lparr>openList =
         [Node 0 1 (Some 2000) (Some 2000) (Some (0, 1)) (Ref (Node 0 0 None None None One)),
          Node 1 1 (Some 1999) (Some 1999) (Some (1, 1))
            (Ref (Node 1 0 (Some 1998) (Some 1998) (Some (1, 0)) (Ref (Node 0 0 None None None One)))),
          Node 2 0 (Some 1997) (Some 1997) (Some (2, 0))
            (Ref (Node 1 0 (Some 1998) (Some 1998) (Some (1, 0)) (Ref (Node 0 0 None None None One)))),
          Node 0 0 (Some 1999) (Some 1999) (Some (0, 0))
            (Ref (Node 1 0 (Some 1998) (Some 1998) (Some (1, 0)) (Ref (Node 0 0 None None None One))))],
        closedList = [Node 0 0 None None None One,
          Node 1 0 (Some 1998) (Some 1998) (Some (1, 0)) (Ref (Node 0 0 None None None One))],
        openListHash = {}, closedListHash = {Some (1, 0), None}, events = [], calls = 9\<rparr>"
    by (simp add: numeral_2_eq_2 aStar_step_def start_state_def expand_def lowest_index_def
        getNeighbours_def candidates_def accepted_def tile_lookup_def grid_def
        has_tile_def visit_neighbour_def heuristic_def IgePathNode_def point_def
        Let_def js_lt_simps lowest_scan_unfold)
  define t0 where "t0 = Node 0 1 (Some 2000) (Some 2000) (Some (0, 1))
      (Ref (Node 0 0 None None None One))"
  define s1 where "s1 = Node 1 0 (Some 1998) (Some 1998) (Some (1, 0))
      (Ref (Node 0 0 None None None One))"
  define S where "S = \<lparr>openList =
         [t0, Node 1 1 (Some 1999) (Some 1999) (Some (1, 1)) (Ref s1),
          Node 2 0 (Some 1997) (Some 1997) (Some (2, 0)) (Ref s1),
          Node 0 0 (Some 1999) (Some 1999) (Some (0, 0)) (Ref s1)],
        closedList = [Node 0 0 None None None One, s1],
        openListHash = {}, closedListHash = {Some (1, 0), None}, events = [], calls = 9\<rparr>"
  have eS: "aStar_after 2 (grid 2000 2) (point 1999 0) has_tile True False
              (start_state (point 0 0)) = Some S"
    unfolding e S_def t0_def s1_def by simp
  have ex: "\<exists>pre post sc l.
         openList S = pre @ [Node (int 2) 0 sc (Some (of_int (1999 - int 2))) (Some (int 2, 0)) l]
                        @ post \<and>
         (\<forall>n \<in> set pre \<union> set post. \<exists>v. node_h n = Some v \<and> of_int (1999 - int 2) < v)"
    apply (rule exI[of _ "[t0, Node 1 1 (Some 1999) (Some 1999) (Some (1, 1)) (Ref s1)]"])
    apply (rule exI[of _ "[Node 0 0 (Some 1999) (Some 1999) (Some (0, 0)) (Ref s1)]"])
    apply (rule exI[of _ "Some 1997"])
    apply (rule exI[of _ "Ref s1"])
    apply (simp add: S_def t0_def)
    done
  have "spine 2 S"
    unfolding spine_def
  proof (intro conjI)
    show "(2::nat) \<le> 2" by simp
    show "\<exists>pre post sc l.
         openList S = pre @ [Node (int 2) 0 sc (Some (of_int (1999 - int 2))) (Some (int 2, 0)) l]
                        @ post \<and>
         (\<forall>n \<in> set pre \<union> set post. \<exists>v. node_h n = Some v \<and> of_int (1999 - int 2) < v)"
      by (rule ex)
    show "length (openList S) = 2 + 2" by (simp add: S_def)
    show "openListHash S = {}" by (simp add: S_def)
    show "Some (int 2 - 1, 0) \<in> closedListHash S" by (simp add: S_def)
    show "\<forall>key\<in>closedListHash S. key = None \<or> (\<exists>x<int 2. key = Some (x, 0))"
      by (simp add: S_def)
    show "events S = []" by (simp add: S_def)
  qed
  with eS show ?thesis by blast
qed

lemma spine_cutoff:
  assumes "spine 998 s"
  shows "aStar_step (grid 2000 2) (point 1999 0) has_tile True False s =
           Inl ([], s\<lparr>events :=
                  [LogError ''Path finder error, open list nodes exceeded 1000!'',
                   Emit exceededLimit,
                   Log ''Could not find a path to destination!'', Emit noPathFound]\<rparr>)"
proof -
  from assms have "length (openList s) = 1000" "events s = []" by (simp_all add: spine_def)
  then show ?thesis by (auto simp: aStar_step_def no_path_def)
qed

text \<open>
  C7, evaluated. On the open map of 2000 by 2 tiles, square-only, from \<open>(0, 0)\<close> to
  \<open>(1999, 0)\<close>, every iteration expands the node \<open>(k, 0)\<close> and pushes \<open>(k, 1)\<close> and
  \<open>(k + 1, 0)\<close>. After 998 iterations the open list holds exactly 1000 nodes, which does
  not exceed 1000, and at that test of the loop condition the call aborts: it emits
  \<^verbatim>\<open>exceededLimit\<close> (then \<^verbatim>\<open>noPathFound\<close>) and returns the empty path. The test of
  line 61 is \<^verbatim>\<open>openList.length > 999\<close>.
\<close>

theorem cutoff_reached_at_1000:
  "map_option (length \<circ> openList)
     (aStar_after 998 (grid 2000 2) (point 1999 0) has_tile True False (start_state (point 0 0)))
     = Some 1000 \<and>
   map_option (\<lambda>r. (fst r, emitted (events (snd r)), length (openList (snd r))))
     (aStar 999 (grid 2000 2) (point 0 0) (point 1999 0) has_tile (Some True) (Some False))
     = Some ([], [exceededLimit, noPathFound], 1000)"
proof -
  from spine_start obtain s2 where
    s2: "aStar_after 2 (grid 2000 2) (point 1999 0) has_tile True False (start_state (point 0 0))
           = Some s2" "spine 2 s2" by blast
  from spine_run[OF s2(2), of 996] obtain s' where
    s': "aStar_after 996 (grid 2000 2) (point 1999 0) has_tile True False s2 = Some s'"
      "spine 998 s'" by auto
  have after: "aStar_after 998 (grid 2000 2) (point 1999 0) has_tile True False
                 (start_state (point 0 0)) = Some s'"
    using aStar_after_add[of 2 996 "grid 2000 2" "point 1999 0" has_tile True False
        "start_state (point 0 0)"] s2(1) s'(1) by simp
  have len: "length (openList s') = 1000" using s'(2) by (simp add: spine_def)
  have "aStar_loop (998 + 1) (grid 2000 2) (point 1999 0) has_tile True False
          (start_state (point 0 0)) =
        aStar_loop 1 (grid 2000 2) (point 1999 0) has_tile True False s'"
    using after by (rule aStar_loop_after)
  then have loop: "aStar_loop 999 (grid 2000 2) (point 1999 0) has_tile True False
          (start_state (point 0 0)) =
        Some ([], s'\<lparr>events :=
                  [LogError ''Path finder error, open list nodes exceeded 1000!'',
                   Emit exceededLimit,
                   Log ''Could not find a path to destination!'', Emit noPathFound]\<rparr>)"
    using spine_cutoff[OF s'(2)] by simp
  have gate: "has_tile (tile_lookup (grid 2000 2) (node_x (point 1999 0)) (node_y (point 1999 0)))
                (node_x (point 1999 0)) (node_y (point 1999 0))"
    by (simp add: has_tile_def tile_lookup_def grid_def point_def)
  have "aStar 999 (grid 2000 2) (point 0 0) (point 1999 0) has_tile (Some True) (Some False) =
        Some ([], s'\<lparr>events :=
                  [LogError ''Path finder error, open list nodes exceeded 1000!'',
                   Emit exceededLimit,
                   Log ''Could not find a path to destination!'', Emit noPathFound]\<rparr>)"
    using gate loop by (simp add: aStar_def)
  with after len show ?thesis by simp
qed


section \<open>The verdict at the start coordinate\<close>

text \<open>When the start object is keyed by its own coordinate, as a node made by
  \<^verbatim>\<open>IgePathNode\<close> is, the closed table holds that key from the first expansion on, and
  the verdict of the callback at the start coordinate has no effect on the call.\<close>

lemma fresh_neighbours_agree:
  assumes agree: "\<And>t x y. (x, y) \<noteq> (sx, sy) \<Longrightarrow> p t x y = q t x y"
    and closed: "Some (sx, sy) \<in> C"
  shows "filter (\<lambda>n. node_hash n \<notin> C \<and> node_hash n \<notin> H) (rev (getNeighbours c e m p sq dg)) =
         filter (\<lambda>n. node_hash n \<notin> C \<and> node_hash n \<notin> H) (rev (getNeighbours c e m q sq dg))"
proof -
  have "filter (\<lambda>n. node_hash n \<notin> C \<and> node_hash n \<notin> H) (getNeighbours c e m p sq dg) =
        filter (\<lambda>n. node_hash n \<notin> C \<and> node_hash n \<notin> H) (getNeighbours c e m q sq dg)"
    unfolding getNeighbours_def filter_map filter_filter
  proof (rule arg_cong[where f = "map _"], rule filter_cong[OF refl])
    fix cand :: "int \<times> int \<times> rat"
    obtain x y w where cand: "cand = (x, y, w)" by (cases cand)
    show "(accepted m p cand \<and>
            ((\<lambda>n. node_hash n \<notin> C \<and> node_hash n \<notin> H) \<circ> (\<lambda>(newX, newY, w). IgePathNode newX newY w)) cand) =
          (accepted m q cand \<and>
            ((\<lambda>n. node_hash n \<notin> C \<and> node_hash n \<notin> H) \<circ> (\<lambda>(newX, newY, w). IgePathNode newX newY w)) cand)"
    proof (cases "(x, y) = (sx, sy)")
      case True
      with closed show ?thesis by (simp add: cand IgePathNode_def)
    next
      case False
      from agree[OF this] show ?thesis by (simp add: cand accepted_def)
    qed
  qed
  then show ?thesis by (simp add: rev_filter[symmetric])
qed

lemma expand_agree:
  assumes agree: "\<And>t x y. (x, y) \<noteq> (sx, sy) \<Longrightarrow> p t x y = q t x y"
    and closed: "Some (sx, sy) \<in> insert (node_hash (openList s ! i)) (closedListHash s)"
  shows "expand m e p sq dg i s = expand m e q sq dg i s"
proof -
  have f: "filter (\<lambda>n. node_hash n \<notin> insert (node_hash (openList s ! i)) (closedListHash s) \<and>
                        node_hash n \<notin> openListHash s - {node_hash (openList s ! i)})
              (rev (getNeighbours (openList s ! i) e m p sq dg)) =
           filter (\<lambda>n. node_hash n \<notin> insert (node_hash (openList s ! i)) (closedListHash s) \<and>
                        node_hash n \<notin> openListHash s - {node_hash (openList s ! i)})
              (rev (getNeighbours (openList s ! i) e m q sq dg))"
    using agree closed by (rule fresh_neighbours_agree)
  show ?thesis unfolding expand_eq f by (rule refl)
qed

lemma aStar_step_agree:
  assumes agree: "\<And>t x y. (x, y) \<noteq> (sx, sy) \<Longrightarrow> p t x y = q t x y"
    and closed: "Some (sx, sy) \<in> closedListHash s \<or> (\<forall>n \<in> set (openList s). node_hash n = Some (sx, sy))"
  shows "aStar_step m e p sq dg s = aStar_step m e q sq dg s"
proof (cases "openList s = []")
  case True
  then show ?thesis by (simp add: aStar_step_def)
next
  case False
  then have "openList s ! lowest_index (openList s) \<in> set (openList s)"
    using lowest_index_less by simp
  with closed have "Some (sx, sy) \<in> insert (node_hash (openList s ! lowest_index (openList s)))
                      (closedListHash s)" by auto
  from expand_agree[of sx sy p q, OF agree this] show ?thesis
    by (simp add: aStar_step_def Let_def)
qed

lemma aStar_loop_agree:
  assumes agree: "\<And>t x y. (x, y) \<noteq> (sx, sy) \<Longrightarrow> p t x y = q t x y"
  shows "Some (sx, sy) \<in> closedListHash s \<or> (\<forall>n \<in> set (openList s). node_hash n = Some (sx, sy))
     \<Longrightarrow> aStar_loop fuel m e p sq dg s = aStar_loop fuel m e q sq dg s"
proof (induction fuel arbitrary: s)
  case 0
  show ?case by simp
next
  case (Suc fuel)
  have st: "aStar_step m e p sq dg s = aStar_step m e q sq dg s"
    using agree Suc.prems by (rule aStar_step_agree)
  show ?case
  proof (cases "aStar_step m e q sq dg s")
    case (Inl r)
    with st show ?thesis by simp
  next
    case (Inr s1)
    from aStar_step_Inr[OF Inr] have ne: "openList s \<noteq> []"
      and s1: "s1 = expand m e q sq dg (lowest_index (openList s)) s" by simp_all
    from ne have "openList s ! lowest_index (openList s) \<in> set (openList s)"
      using lowest_index_less by simp
    with Suc.prems have "Some (sx, sy) \<in> closedListHash s1"
      unfolding s1 expand_eq by auto
    then have "aStar_loop fuel m e p sq dg s1 = aStar_loop fuel m e q sq dg s1"
      using Suc.IH by blast
    with st Inr show ?thesis by simp
  qed
qed

lemma keyed_start_verdict_irrelevant:
  assumes agree: "\<And>t x y. (x, y) \<noteq> (node_x startPoint, node_y startPoint) \<Longrightarrow> p t x y = q t x y"
    and keyed: "node_hash startPoint = Some (node_x startPoint, node_y startPoint)"
    and differs: "coord endPoint \<noteq> coord startPoint"
  shows "aStar fuel m startPoint endPoint p sq dg = aStar fuel m startPoint endPoint q sq dg"
proof -
  have "(node_x endPoint, node_y endPoint) \<noteq> (node_x startPoint, node_y startPoint)"
    using differs by (simp add: coord_def)
  from agree[OF this] have gate:
    "p (tile_lookup m (node_x endPoint) (node_y endPoint)) (node_x endPoint) (node_y endPoint) =
     q (tile_lookup m (node_x endPoint) (node_y endPoint)) (node_x endPoint) (node_y endPoint)" .
  have "\<forall>n \<in> set (openList (start_state startPoint)).
          node_hash n = Some (node_x startPoint, node_y startPoint)"
    using keyed by (simp add: start_state_def)
  then have "aStar_loop fuel m endPoint p a b (start_state startPoint) =
             aStar_loop fuel m endPoint q a b (start_state startPoint)" for a b
    using aStar_loop_agree[of "node_x startPoint" "node_y startPoint" p q, OF agree] by blast
  with gate show ?thesis by (simp add: aStar_def Let_def)
qed


text \<open>
  C10, evaluated. On the detour map with both kinds of movement, from the plain point
  \<open>(1, 2)\<close> to \<open>(4, 2)\<close>, two callbacks that differ at \<open>(1, 2)\<close> only give different paths:
  when the start tile is accepted, the start coordinate enters the open list again as a
  neighbour of \<open>(2, 2)\<close> (the start was closed under the key \<^verbatim>\<open>undefined\<close>), is expanded
  a second time, and the returned path passes through it twice.
\<close>

theorem start_verdict_changes_path:
  "map_option (map coord \<circ> fst)
     (aStar 20 detour_map (point 1 2) (point 4 2) has_tile (Some True) (Some True)) =
     Some [(1, 2), (2, 2), (1, 2), (1, 1), (2, 0), (3, 0), (4, 1), (4, 2)] \<and>
   map_option (map coord \<circ> fst)
     (aStar 20 detour_map (point 1 2) (point 4 2)
        (\<lambda>t x y. has_tile t x y \<and> (x, y) \<noteq> (1, 2)) (Some True) (Some True)) =
     Some [(1, 2), (2, 2), (1, 1), (2, 0), (3, 0), (4, 1), (4, 2)]"
  by code_simp


section \<open>Termination\<close>


















end
